theory Spec2Isabelle
  imports Main "HOL-Library.Sublist"
begin

section \<open>Cartesian expansion of candidate lists\<close>

text \<open>
  Values held in the \<^verbatim>\<open>[]interface{}\<close> slices that \<^verbatim>\<open>cartesian\<close> receives: the test
  \<^verbatim>\<open>TestCartesian\<close> mixes Go strings and ints.
\<close>

datatype iface = Str string | Num int

text \<open>
  Modelled from the spec: the function \<^verbatim>\<open>cartesian\<close> (called by \<^verbatim>\<open>TestCartesian\<close> in
  \<^verbatim>\<open>utils_test.go\<close>) has no definition among the available sources. Section 4.2 of the
  specification defines it by \<^verbatim>\<open>cartesian([]) = [[]]\<close> and
  \<^verbatim>\<open>cartesian(xs::rest) = { [x, ...tail] | x \<in> xs, tail \<in> cartesian(rest) }\<close>, emitted with the
  leftmost list varying slowest.
\<close>

fun cartesian :: "'a list list \<Rightarrow> 'a list list" where
  "cartesian [] = [[]]"
| "cartesian (xs # rest) = concat (map (\<lambda>x. map (\<lambda>tail. x # tail) (cartesian rest)) xs)"

text \<open>
  The position of a tuple in the product: \<open>index_tuples\<close> enumerates, in emission order, the
  index vector of every emitted tuple, and \<open>pick\<close> reads the tuple back from its index vector.
  \<open>lex_less\<close> is the strict lexicographic order on index vectors (leftmost index most
  significant).
\<close>

definition index_tuples :: "'a list list \<Rightarrow> nat list list" where
  "index_tuples xss = cartesian (map (\<lambda>xs. [0..<length xs]) xss)"

definition pick :: "'a list list \<Rightarrow> nat list \<Rightarrow> 'a list" where
  "pick xss js = map (\<lambda>(xs, j). xs ! j) (zip xss js)"

definition lex_less :: "nat list \<Rightarrow> nat list \<Rightarrow> bool" where
  "lex_less a b = ((a, b) \<in> lexord {(x, y). x < y})"

section \<open>Sessions: executions, results and the external collaborators\<close>

text \<open>
  The part of a bound execution that \<^verbatim>\<open>sessions.go\<close> reads: its identifier \<^verbatim>\<open>b.ID()\<close> and
  the pre-module hooks of its module, \<^verbatim>\<open>b.ModuleConfig().Hooks.PreModuleRun\<close>.
\<close>

record hooks =
  PreModuleRun :: "string list"

record moduleConfig =
  Name :: string
  Hooks :: hooks

record boundExecution =
  ID :: string
  ModuleConfig :: moduleConfig

text \<open>A Go \<^verbatim>\<open>error\<close> value is represented by its message; \<open>None\<close> is \<^verbatim>\<open>nil\<close>.\<close>

type_synonym error = string

text \<open>A \<^verbatim>\<open>terraform.Result\<close>, as far as the core looks at it.\<close>

datatype terraformResult = TerraformResult (Stderr: string)

record Result =
  id' :: string
  terraformResult :: "terraformResult option"
  err :: "error option"

text \<open>
  Everything a closure calls outside \<^verbatim>\<open>sessions.go\<close> is a parameter: the outcome of
  creating the Terraform session for an execution, of running a hook command in the
  session directory, and of the four Terraform operations on the session of an execution.
\<close>

record world =
  newTerraformSession :: "boundExecution \<Rightarrow> error option"
  runCommandkAndSetEnvironment :: "string \<Rightarrow> string \<Rightarrow> error option"
  Init :: "boundExecution \<Rightarrow> terraformResult option \<times> error option"
  Detach :: "boundExecution \<Rightarrow> terraformResult option \<times> error option"
  Plan :: "boundExecution \<Rightarrow> terraformResult option \<times> error option"
  Apply :: "boundExecution \<Rightarrow> terraformResult option \<times> error option"

text \<open>
  The operations a closure attempts, in program order: sends on the two channels and calls
  of the collaborators. An event list below is the text of a closure along the path its
  collaborators' outcomes select, not a record of what has happened: a send on a full
  channel that nobody reads blocks, and the operations behind it are not performed. Which
  operations are performed, and when, is decided by \<open>step\<close> further down, which takes the
  capacities of the channels into account.
\<close>

datatype event =
    SendStatus string
  | SendResult Result
  | CallNewTerraformSession boundExecution
  | CallHook string string
  | CallInit boundExecution
  | CallDetach boundExecution
  | CallPlan boundExecution
  | CallApply boundExecution

text \<open>\<^verbatim>\<open>fmt.Sprintf("[%s] <phase>...", b.ID())\<close>\<close>

definition sprintf_status :: "string \<Rightarrow> string \<Rightarrow> string" where
  "sprintf_status i phase = ''['' @ i @ ''] '' @ phase @ ''...''"

text \<open>
  The closure of the flat apply path (\<^verbatim>\<open>apply\<close>, lines 123--150): no hook is run.
\<close>

definition apply_fn :: "world \<Rightarrow> boundExecution \<Rightarrow> event list" where
  "apply_fn w b =
     CallNewTerraformSession b #
     (case newTerraformSession w b of
        Some e \<Rightarrow> [SendResult \<lparr>id' = ID b, terraformResult = None, err = Some e\<rparr>]
      | None \<Rightarrow>
          SendStatus (sprintf_status (ID b) ''Initializing'') # CallInit b #
          (case Init w b of
             (result, Some e) \<Rightarrow> [SendResult \<lparr>id' = ID b, terraformResult = result, err = Some e\<rparr>]
           | (_, None) \<Rightarrow>
               [SendStatus (sprintf_status (ID b) ''Applying''), CallApply b,
                SendResult \<lparr>id' = ID b, terraformResult = fst (Apply w b), err = snd (Apply w b)\<rparr>]))"

text \<open>
  The loop over \<^verbatim>\<open>Hooks.PreModuleRun\<close> shared by \<^verbatim>\<open>plan\<close> (lines 276--285) and
  \<^verbatim>\<open>applyWithGraph\<close> (lines 209--218): a status line, then the command; the first failing
  command delivers a Result with the wrapped error and ends the closure. The second
  component is the error of the failing command (\<open>None\<close> when the loop ran through).
\<close>

fun preModuleRun_loop :: "world \<Rightarrow> string \<Rightarrow> string \<Rightarrow> string list \<Rightarrow> event list \<times> error option" where
  "preModuleRun_loop w path i [] = ([], None)"
| "preModuleRun_loop w path i (hook # rest) =
     (case runCommandkAndSetEnvironment w path hook of
        Some e \<Rightarrow>
          ([SendStatus (sprintf_status i ''Running PreModuleRun hook''), CallHook path hook,
            SendResult \<lparr>id' = i, terraformResult = None,
                     err = Some (''error running PreModuleRun hook: '' @ e)\<rparr>], Some e)
      | None \<Rightarrow>
          (SendStatus (sprintf_status i ''Running PreModuleRun hook'') # CallHook path hook #
             fst (preModuleRun_loop w path i rest),
           snd (preModuleRun_loop w path i rest)))"

text \<open>
  The closure of the plan path (\<^verbatim>\<open>plan\<close>, lines 266--316). The closure reads the hooks
  through the loop variable \<^verbatim>\<open>e\<close>, everything else through the copy \<^verbatim>\<open>b\<close>; both are
  arguments here.
\<close>

definition plan_fn :: "world \<Rightarrow> string \<Rightarrow> bool \<Rightarrow> boundExecution \<Rightarrow> boundExecution \<Rightarrow> event list" where
  "plan_fn w path detach b e =
     CallNewTerraformSession b #
     (case newTerraformSession w b of
        Some x \<Rightarrow> [SendResult \<lparr>id' = ID b, terraformResult = None, err = Some x\<rparr>]
      | None \<Rightarrow>
          fst (preModuleRun_loop w path (ID b) (PreModuleRun (Hooks (ModuleConfig e)))) @
          (case snd (preModuleRun_loop w path (ID b) (PreModuleRun (Hooks (ModuleConfig e)))) of
             Some x \<Rightarrow> []
           | None \<Rightarrow>
               SendStatus (sprintf_status (ID b) ''Initializing'') # CallInit b #
               (case Init w b of
                  (result, Some x) \<Rightarrow>
                    [SendResult \<lparr>id' = ID b, terraformResult = result, err = Some x\<rparr>]
                | (_, None) \<Rightarrow>
                    (if detach then
                       SendStatus (sprintf_status (ID b) ''Disconnecting remote state'') # CallDetach b #
                       (case Detach w b of
                          (result, Some x) \<Rightarrow>
                            [SendResult \<lparr>id' = ID b, terraformResult = result, err = Some x\<rparr>]
                        | (_, None) \<Rightarrow>
                            [SendStatus (sprintf_status (ID b) ''Planning''), CallPlan b,
                             SendResult \<lparr>id' = ID b, terraformResult = fst (Plan w b),
                                      err = snd (Plan w b)\<rparr>])
                     else
                       [SendStatus (sprintf_status (ID b) ''Planning''), CallPlan b,
                        SendResult \<lparr>id' = ID b, terraformResult = fst (Plan w b),
                                 err = snd (Plan w b)\<rparr>]))))"

text \<open>
  The vertices of the dependency graph: the synthetic root and the bound executions.
\<close>

datatype vertex = graphNodeRoot | Exec boundExecution

text \<open>
  The callback that \<^verbatim>\<open>applyWithGraph\<close> hands to the walker (lines 193--242): the events
  and the error it returns to the walker.
\<close>

definition walk_fn :: "world \<Rightarrow> string \<Rightarrow> vertex \<Rightarrow> event list \<times> error option" where
  "walk_fn w path v =
     (case v of
        graphNodeRoot \<Rightarrow> ([], None)
      | Exec b \<Rightarrow>
          (case newTerraformSession w b of
             Some x \<Rightarrow>
               ([CallNewTerraformSession b,
                 SendResult \<lparr>id' = ID b, terraformResult = None, err = Some x\<rparr>], Some x)
           | None \<Rightarrow>
               (case snd (preModuleRun_loop w path (ID b) (PreModuleRun (Hooks (ModuleConfig b)))) of
                  Some x \<Rightarrow>
                    (CallNewTerraformSession b #
                       fst (preModuleRun_loop w path (ID b) (PreModuleRun (Hooks (ModuleConfig b)))),
                     Some x)
                | None \<Rightarrow>
                    (case Init w b of
                       (result, Some x) \<Rightarrow>
                         (CallNewTerraformSession b #
                            fst (preModuleRun_loop w path (ID b) (PreModuleRun (Hooks (ModuleConfig b)))) @
                            [SendStatus (sprintf_status (ID b) ''Initializing''), CallInit b,
                             SendResult \<lparr>id' = ID b, terraformResult = result, err = Some x\<rparr>],
                          Some x)
                     | (_, None) \<Rightarrow>
                         (CallNewTerraformSession b #
                            fst (preModuleRun_loop w path (ID b) (PreModuleRun (Hooks (ModuleConfig b)))) @
                            [SendStatus (sprintf_status (ID b) ''Initializing''), CallInit b,
                             SendStatus (sprintf_status (ID b) ''Applying''), CallApply b,
                             SendResult \<lparr>id' = ID b, terraformResult = fst (Apply w b),
                                      err = snd (Apply w b)\<rparr>],
                          snd (Apply w b))))))"

section \<open>Sessions: the three entry points\<close>

record session =
  session_id :: string
  path :: string

text \<open>
  The dependency graph handed to the walker: a vector of vertices and edges between their
  indices, \<open>(a, b)\<close> standing for the edge from the dependency \<open>a\<close> to the dependent \<open>b\<close>.
  The method \<^verbatim>\<open>executions.graph()\<close> is not among the sources; its outcome is a parameter
  of \<open>session_applyWithGraph\<close>.
\<close>

record graph =
  vertices :: "vertex list"
  edges :: "(nat \<times> nat) list"

text \<open>
  The goroutine that runs the closures: \<^verbatim>\<open>utils.Parallel(ctx, 10, fns...)\<close> on the flat
  paths, \<^verbatim>\<open>graph.Walk(callback)\<close> on the graph path; in all three it is preceded by
  \<^verbatim>\<open>defer close(results)\<close> and nothing else is deferred.
\<close>

datatype runner =
    Parallel nat "event list list"
  | Walk graph "vertex \<Rightarrow> event list \<times> error option"

text \<open>
  What a call returns and what it leaves running. A channel is represented by the
  capacity it was made with, \<open>None\<close> standing for a \<^verbatim>\<open>nil\<close> channel; \<open>signal_goroutine\<close>
  says whether the call started the goroutine
  \<^verbatim>\<open>sig := <-session.signalChan; fmt.Printf(...); cancel()\<close>.
\<close>

record launch =
  statusCh :: "nat option"
  resultsCh :: "nat option"
  ret_err :: "error option"
  signal_goroutine :: bool
  runner :: "runner option"

text \<open>
  The value of the loop variable \<^verbatim>\<open>e\<close> of \<^verbatim>\<open>for _, e := range boundExecutions\<close> when a
  closure built in the iteration that handled \<open>b\<close> runs. The closures run after the loop
  has ended: with one variable per iteration (Go 1.22 and later) it is \<open>b\<close>, with one
  variable for the whole loop (earlier Go) it is the last element.
\<close>

datatype loopvar = PerIteration | PerLoop

definition loop_variable :: "loopvar \<Rightarrow> boundExecution list \<Rightarrow> boundExecution \<Rightarrow> boundExecution" where
  "loop_variable sem boundExecutions b =
     (case sem of PerIteration \<Rightarrow> b | PerLoop \<Rightarrow> last boundExecutions)"

definition session_apply :: "world \<Rightarrow> session \<Rightarrow> boundExecution list \<Rightarrow> launch" where
  "session_apply w session boundExecutions =
     \<lparr>statusCh = Some (length boundExecutions * 10),
      resultsCh = Some (length boundExecutions),
      ret_err = None,
      signal_goroutine = True,
      runner = Some (Parallel 10 (map (apply_fn w) boundExecutions))\<rparr>"

definition session_plan :: "loopvar \<Rightarrow> world \<Rightarrow> session \<Rightarrow> boundExecution list \<Rightarrow> bool \<Rightarrow> launch" where
  "session_plan sem w session boundExecutions detach =
     \<lparr>statusCh = Some (length boundExecutions * 10),
      resultsCh = Some (length boundExecutions),
      ret_err = None,
      signal_goroutine = True,
      runner = Some (Parallel 10
        (map (\<lambda>b. plan_fn w (path session) detach b (loop_variable sem boundExecutions b))
           boundExecutions))\<rparr>"

definition session_applyWithGraph ::
  "(boundExecution list \<Rightarrow> error + graph) \<Rightarrow> world \<Rightarrow> session \<Rightarrow> boundExecution list \<Rightarrow> launch" where
  "session_applyWithGraph graph_of w session boundExecutions =
     (case graph_of boundExecutions of
        Inl e \<Rightarrow>
          \<lparr>statusCh = None, resultsCh = None, ret_err = Some e,
           signal_goroutine = False, runner = None\<rparr>
      | Inr g \<Rightarrow>
          \<lparr>statusCh = Some (length boundExecutions * 10),
           resultsCh = Some (length boundExecutions),
           ret_err = None,
           signal_goroutine = False,
           runner = Some (Walk g (walk_fn w (path session)))\<rparr>)"

text \<open>The closures a launch may run, and the events of all of them.\<close>

definition closures :: "launch \<Rightarrow> event list list" where
  "closures l =
     (case runner l of
        None \<Rightarrow> []
      | Some (Parallel n fns) \<Rightarrow> fns
      | Some (Walk g callback) \<Rightarrow> map (\<lambda>v. fst (callback v)) (vertices g))"

definition is_hook_call :: "event \<Rightarrow> bool" where
  "is_hook_call ev = (case ev of CallHook p c \<Rightarrow> True | _ \<Rightarrow> False)"

definition hook_calls :: "event list \<Rightarrow> string list" where
  "hook_calls evs = concat (map (\<lambda>ev. case ev of CallHook p c \<Rightarrow> [c] | _ \<Rightarrow> []) evs)"

definition statuses :: "event list \<Rightarrow> string list" where
  "statuses evs = concat (map (\<lambda>ev. case ev of SendStatus s \<Rightarrow> [s] | _ \<Rightarrow> []) evs)"

definition deliveries :: "event list \<Rightarrow> Result list" where
  "deliveries evs = concat (map (\<lambda>ev. case ev of SendResult r \<Rightarrow> [r] | _ \<Rightarrow> []) evs)"

text \<open>
  The hook commands that a run of the hook loop reaches: the hooks in order, up to and
  including the first one whose command fails.
\<close>

fun hooks_until_failure :: "world \<Rightarrow> string \<Rightarrow> string list \<Rightarrow> string list" where
  "hooks_until_failure w p [] = []"
| "hooks_until_failure w p (hook # rest) =
     (case runCommandkAndSetEnvironment w p hook of
        Some e \<Rightarrow> [hook]
      | None \<Rightarrow> hook # hooks_until_failure w p rest)"


text \<open>Concrete collaborators and executions used to evaluate the closures.\<close>

definition all_succeed :: world where
  "all_succeed =
     \<lparr>newTerraformSession = (\<lambda>b. None),
      runCommandkAndSetEnvironment = (\<lambda>p c. None),
      Init = (\<lambda>b. (Some (TerraformResult ''''), None)),
      Detach = (\<lambda>b. (Some (TerraformResult ''''), None)),
      Plan = (\<lambda>b. (Some (TerraformResult ''''), None)),
      Apply = (\<lambda>b. (Some (TerraformResult ''''), None))\<rparr>"

definition hooked :: "string \<Rightarrow> string list \<Rightarrow> boundExecution" where
  "hooked i cmds = \<lparr>ID = i, ModuleConfig = \<lparr>Name = i, Hooks = \<lparr>PreModuleRun = cmds\<rparr>\<rparr>\<rparr>"

definition session0 :: session where
  "session0 = \<lparr>session_id = ''01ARZ3NDEKTSV4RRFFQ69G5FAV'', path = ''.astro/01ARZ3NDEKTSV4RRFFQ69G5FAV''\<rparr>"



section \<open>Channels, goroutines and their interleavings\<close>

datatype signal = SIGINT | SIGTERM

text \<open>The text that \<^verbatim>\<open>%s\<close> prints for a signal (\<^verbatim>\<open>syscall.Signal.String\<close>).\<close>

definition signal_name :: "signal \<Rightarrow> string" where
  "signal_name sig = (case sig of SIGINT \<Rightarrow> ''interrupt'' | SIGTERM \<Rightarrow> ''terminated'')"

text \<open>
  \<^verbatim>\<open>fmt.Printf("\nReceived signal: %s, cancelling all operations...\n", sig)\<close>
\<close>

definition received_signal :: "signal \<Rightarrow> string" where
  "received_signal sig =
     [CHR 0x0A] @ ''Received signal: '' @ signal_name sig @ '', cancelling all operations...'' @ [CHR 0x0A]"

text \<open>
  A closure has not been started, is running with the operations it has still to perform,
  has returned, or (on the graph path) has been skipped by the walker.
\<close>

datatype pstate = Pending | Running "event list" | Finished | Skipped

text \<open>
  The state of one call: the closures, the operations performed so far (tagged with the
  index of the closure, in the order they were performed), the contents of the two
  channels and whether they have been closed, what the readers of the channels have
  received, standard output, the cancellation token, and the session's signal channel
  (made with capacity 1 in \<^verbatim>\<open>NewSession\<close>).
\<close>

record state =
  procs :: "pstate list"
  trace :: "(nat \<times> event) list"
  status_q :: "string list"
  results_q :: "Result list"
  status_closed :: bool
  results_closed :: bool
  status_read :: "string list"
  results_read :: "Result list"
  stdout :: "string list"
  cancelled :: bool
  signalChan :: "signal list"
  handler_exited :: bool

definition init :: "launch \<Rightarrow> state" where
  "init l =
     \<lparr>procs = replicate (length (closures l)) Pending, trace = [],
      status_q = [], results_q = [], status_closed = False, results_closed = False,
      status_read = [], results_read = [], stdout = [], cancelled = False,
      signalChan = [], handler_exited = False\<rparr>"

definition performed :: "state \<Rightarrow> nat \<Rightarrow> event list" where
  "performed st i = map snd (filter (\<lambda>x. fst x = i) (trace st))"

definition proc_at :: "state \<Rightarrow> nat \<Rightarrow> pstate" where
  "proc_at st i = (if i < length (procs st) then procs st ! i else Pending)"

definition is_running :: "pstate \<Rightarrow> bool" where
  "is_running p = (case p of Running evs \<Rightarrow> True | _ \<Rightarrow> False)"

text \<open>The error a closure returns to whoever called it (only the walker looks at it).\<close>

definition returns :: "launch \<Rightarrow> nat \<Rightarrow> error option" where
  "returns l i =
     (case runner l of
        Some (Walk g callback) \<Rightarrow> snd (callback (vertices g ! i))
      | _ \<Rightarrow> None)"

definition preds :: "graph \<Rightarrow> nat \<Rightarrow> nat list" where
  "preds g i = map fst (filter (\<lambda>e. snd e = i) (edges g))"

text \<open>
  Modelled from the spec: \<^verbatim>\<open>utils.Parallel\<close> is called by \<^verbatim>\<open>apply\<close> and \<^verbatim>\<open>plan\<close> but is not
  among the sources. Section 4.4: a bounded worker pool of fixed width; once the token is
  cancelled, pending closures that have not started must not start, and closures in flight
  complete. The pool returns when no closure is in flight and none is left to start.
\<close>

definition parallel_may_start :: "nat \<Rightarrow> state \<Rightarrow> bool" where
  "parallel_may_start n st = (\<not> cancelled st \<and> length (filter is_running (procs st)) < n)"

definition parallel_returned :: "state \<Rightarrow> bool" where
  "parallel_returned st =
     (\<not> list_ex is_running (procs st) \<and> (cancelled st \<or> Pending \<notin> set (procs st)))"

text \<open>
  Modelled from the spec: \<^verbatim>\<open>graph.Walk\<close> belongs to an imported package and is not among
  the sources. Section 4.3: a vertex is visited once, when none of its predecessors is
  unresolved; when the callback of a vertex returns an error its successors are skipped,
  never invoked, and their successors in turn. The walk returns when every vertex has
  been visited or skipped.
\<close>

definition walk_may_start :: "launch \<Rightarrow> graph \<Rightarrow> state \<Rightarrow> nat \<Rightarrow> bool" where
  "walk_may_start l g st i =
     list_all (\<lambda>a. proc_at st a = Finished \<and> returns l a = None) (preds g i)"

definition walk_skips :: "launch \<Rightarrow> graph \<Rightarrow> state \<Rightarrow> nat \<Rightarrow> bool" where
  "walk_skips l g st i =
     list_ex (\<lambda>a. proc_at st a = Skipped \<or> (proc_at st a = Finished \<and> returns l a \<noteq> None)) (preds g i)"

definition walk_returned :: "state \<Rightarrow> bool" where
  "walk_returned st = (\<not> list_ex is_running (procs st) \<and> Pending \<notin> set (procs st))"

definition may_start :: "launch \<Rightarrow> state \<Rightarrow> nat \<Rightarrow> bool" where
  "may_start l st i =
     (case runner l of
        None \<Rightarrow> False
      | Some (Parallel n fns) \<Rightarrow> parallel_may_start n st
      | Some (Walk g callback) \<Rightarrow> walk_may_start l g st i)"

definition may_skip :: "launch \<Rightarrow> state \<Rightarrow> nat \<Rightarrow> bool" where
  "may_skip l st i =
     (case runner l of
        Some (Walk g callback) \<Rightarrow> walk_skips l g st i
      | _ \<Rightarrow> False)"

definition runner_returned :: "launch \<Rightarrow> state \<Rightarrow> bool" where
  "runner_returned l st =
     (case runner l of
        None \<Rightarrow> False
      | Some (Parallel n fns) \<Rightarrow> parallel_returned st
      | Some (Walk g callback) \<Rightarrow> walk_returned st)"

text \<open>
  What the scheduler, the operating system and the readers of the channels can do next.
  \<open>Start\<close> and \<open>Skip\<close> are the runner taking up or skipping a closure, \<open>Step\<close> lets a running
  closure perform its next operation, \<open>Signal\<close> is the operating system delivering a
  signal to the process, \<open>Handle\<close> is the signal goroutine receiving from the signal
  channel, \<open>Close\<close> is the deferred \<^verbatim>\<open>close(results)\<close>, \<open>RecvStatus\<close> and \<open>RecvResult\<close> are a
  reader taking one value from a channel, and \<open>RangeExit\<close> is a \<^verbatim>\<open>for ... range status\<close>
  loop ending.
\<close>

datatype action =
    Start nat | Skip nat | Step nat
  | Signal signal | Handle | Close
  | RecvStatus | RecvResult | RangeExit

definition finish :: "nat \<Rightarrow> event list \<Rightarrow> state \<Rightarrow> state" where
  "finish i rest st = st\<lparr>procs := (procs st)[i := (if rest = [] then Finished else Running rest)]\<rparr>"

text \<open>
  One operation of a running closure. A send goes through only while the channel holds
  fewer values than its capacity (the readers are separate actions); otherwise the closure
  cannot move.
\<close>

definition perform :: "launch \<Rightarrow> nat \<Rightarrow> event \<Rightarrow> event list \<Rightarrow> state \<Rightarrow> state option" where
  "perform l i ev rest st =
     (case ev of
        SendStatus s \<Rightarrow>
          (case statusCh l of
             None \<Rightarrow> None
           | Some c \<Rightarrow>
               if length (status_q st) < c
               then Some (finish i rest (st\<lparr>status_q := status_q st @ [s], trace := trace st @ [(i, ev)]\<rparr>))
               else None)
      | SendResult r \<Rightarrow>
          (case resultsCh l of
             None \<Rightarrow> None
           | Some c \<Rightarrow>
               if length (results_q st) < c \<and> \<not> results_closed st
               then Some (finish i rest (st\<lparr>results_q := results_q st @ [r], trace := trace st @ [(i, ev)]\<rparr>))
               else None)
      | _ \<Rightarrow> Some (finish i rest (st\<lparr>trace := trace st @ [(i, ev)]\<rparr>)))"

fun step :: "launch \<Rightarrow> action \<Rightarrow> state \<Rightarrow> state option" where
  "step l (Start i) st =
     (if i < length (procs st) \<and> procs st ! i = Pending \<and> \<not> results_closed st \<and> may_start l st i
      then Some (finish i (closures l ! i) st)
      else None)"
| "step l (Skip i) st =
     (if i < length (procs st) \<and> procs st ! i = Pending \<and> may_skip l st i
      then Some (st\<lparr>procs := (procs st)[i := Skipped]\<rparr>)
      else None)"
| "step l (Step i) st =
     (if i < length (procs st)
      then (case procs st ! i of
              Running (ev # rest) \<Rightarrow> perform l i ev rest st
            | _ \<Rightarrow> None)
      else None)"
| "step l (Signal sig) st =
     Some (if length (signalChan st) < 1 then st\<lparr>signalChan := signalChan st @ [sig]\<rparr> else st)"
| "step l Handle st =
     (if signal_goroutine l \<and> \<not> handler_exited st
      then (case signalChan st of
              [] \<Rightarrow> None
            | sig # rest \<Rightarrow>
                Some (st\<lparr>signalChan := rest, stdout := stdout st @ [received_signal sig],
                         cancelled := True, handler_exited := True\<rparr>))
      else None)"
| "step l Close st =
     (if \<not> results_closed st \<and> runner_returned l st
      then Some (st\<lparr>results_closed := True\<rparr>)
      else None)"
| "step l RecvStatus st =
     (case status_q st of
        [] \<Rightarrow> None
      | s # rest \<Rightarrow> Some (st\<lparr>status_q := rest, status_read := status_read st @ [s]\<rparr>))"
| "step l RecvResult st =
     (case results_q st of
        [] \<Rightarrow> None
      | r # rest \<Rightarrow> Some (st\<lparr>results_q := rest, results_read := results_read st @ [r]\<rparr>))"
| "step l RangeExit st =
     (if status_closed st \<and> status_q st = [] then Some st else None)"

fun run :: "launch \<Rightarrow> action list \<Rightarrow> state \<Rightarrow> state option" where
  "run l [] st = Some st"
| "run l (a # as) st = (case step l a st of None \<Rightarrow> None | Some st' \<Rightarrow> run l as st')"

text \<open>A running closure whose next operation is a send that cannot go through.\<close>

definition blocked :: "launch \<Rightarrow> state \<Rightarrow> nat \<Rightarrow> bool" where
  "blocked l st i =
     (i < length (procs st) \<and>
      (case procs st ! i of
         Running (ev # rest) \<Rightarrow> perform l i ev rest st = None
       | _ \<Rightarrow> False))"

text \<open>
  The bookkeeping invariant of \<open>step\<close>: what a closure has performed, followed by what it
  has still to perform, is its text.
\<close>

definition proc_ok :: "launch \<Rightarrow> state \<Rightarrow> nat \<Rightarrow> bool" where
  "proc_ok l st i =
     (case procs st ! i of
        Pending \<Rightarrow> performed st i = []
      | Skipped \<Rightarrow> performed st i = []
      | Running rest \<Rightarrow> rest \<noteq> [] \<and> performed st i @ rest = closures l ! i
      | Finished \<Rightarrow> performed st i = closures l ! i)"

definition consistent :: "launch \<Rightarrow> state \<Rightarrow> bool" where
  "consistent l st =
     (length (procs st) = length (closures l) \<and> (\<forall>i < length (procs st). proc_ok l st i))"

section \<open>Status lines\<close>

text \<open>The phases named in a status line.\<close>

definition phases :: "string list" where
  "phases = [''Initializing'', ''Disconnecting remote state'', ''Planning'', ''Applying'',
             ''Running PreModuleRun hook'']"

text \<open>
  In a sequence of lines, line \<open>b\<close> does not occur without line \<open>a\<close> in front of its first
  occurrence.
\<close>

definition emitted_before :: "string \<Rightarrow> string \<Rightarrow> string list \<Rightarrow> bool" where
  "emitted_before a b xs = (b \<in> set xs \<longrightarrow> a \<in> set (takeWhile (\<lambda>x. x \<noteq> b) xs))"

text \<open>
  The status lines of one execution on the plan path and on the two apply paths, when
  \<open>k\<close> hooks are announced and nothing fails.
\<close>

definition plan_lines :: "string \<Rightarrow> nat \<Rightarrow> bool \<Rightarrow> string list" where
  "plan_lines i k detach =
     replicate k (sprintf_status i ''Running PreModuleRun hook'') @
     [sprintf_status i ''Initializing''] @
     (if detach then [sprintf_status i ''Disconnecting remote state''] else []) @
     [sprintf_status i ''Planning'']"

definition apply_lines :: "string \<Rightarrow> nat \<Rightarrow> string list" where
  "apply_lines i k =
     replicate k (sprintf_status i ''Running PreModuleRun hook'') @
     [sprintf_status i ''Initializing'', sprintf_status i ''Applying'']"

text \<open>A graph construction that fails, as on a configuration with a dependency cycle.\<close>

definition cyclic :: "boundExecution list \<Rightarrow> error + graph" where
  "cyclic bs = Inl ''cycle in dependency graph''"

section \<open>Sends that are still to come\<close>

text \<open>The operations a closure may still perform: all of them before it is started.\<close>

definition remaining :: "launch \<Rightarrow> state \<Rightarrow> nat \<Rightarrow> event list" where
  "remaining l st i =
     (case procs st ! i of
        Pending \<Rightarrow> closures l ! i
      | Running rest \<Rightarrow> rest
      | _ \<Rightarrow> [])"

definition status_sends :: "event list \<Rightarrow> nat" where
  "status_sends evs = length (statuses evs)"

definition result_sends :: "event list \<Rightarrow> nat" where
  "result_sends evs = length (deliveries evs)"

text \<open>An execution whose module has \<open>n\<close> hooks, each the command \<^verbatim>\<open>true\<close>.\<close>

definition many_hooks :: "string \<Rightarrow> nat \<Rightarrow> boundExecution" where
  "many_hooks i n = hooked i (replicate n ''true'')"

section \<open>Properties of the Cartesian expansion\<close>

lemma block_sorted:
  "sorted_wrt lex_less T \<Longrightarrow> sorted_wrt (<) js \<Longrightarrow>
   sorted_wrt lex_less (concat (map (\<lambda>x. map (\<lambda>tail. x # tail) T) js))"
proof (induction js)
  case Nil
  then show ?case by simp
next
  case (Cons j js)
  have inner: "sorted_wrt lex_less (map (\<lambda>tail. j # tail) T)"
    using Cons.prems(1) by (simp add: sorted_wrt_map lex_less_def)
  have rest: "sorted_wrt lex_less (concat (map (\<lambda>x. map (\<lambda>tail. x # tail) T) js))"
    using Cons by simp
  have cross: "\<forall>a\<in>set (map (\<lambda>tail. j # tail) T).
      \<forall>b\<in>set (concat (map (\<lambda>x. map (\<lambda>tail. x # tail) T) js)). lex_less a b"
    using Cons.prems(2) by (auto simp: lex_less_def)
  show ?case using inner rest cross by (simp add: sorted_wrt_append)
qed

lemma index_tuples_sorted: "sorted_wrt lex_less (index_tuples xss)"
proof (induction xss)
  case Nil
  then show ?case by (simp add: index_tuples_def)
next
  case (Cons xs xss)
  have "sorted_wrt (<) [0..<length xs]" by simp
  with Cons show ?case
    unfolding index_tuples_def by (simp add: block_sorted del: upt.simps)
qed

lemma cartesian_pick: "cartesian xss = map (pick xss) (index_tuples xss)"
proof (induction xss)
  case Nil
  then show ?case by (simp add: index_tuples_def pick_def)
next
  case (Cons xs xss)
  have "map (pick (xs # xss)) (index_tuples (xs # xss))
      = concat (map (\<lambda>j. map (\<lambda>tail. xs ! j # tail) (map (pick xss) (index_tuples xss))) [0..<length xs])"
    by (simp add: index_tuples_def pick_def map_concat comp_def del: upt.simps)
  also have "\<dots> = concat (map (\<lambda>j. map (\<lambda>tail. xs ! j # tail) (cartesian xss)) [0..<length xs])"
    using Cons by simp
  also have "\<dots> = concat (map (\<lambda>x. map (\<lambda>tail. x # tail) (cartesian xss)) (map (\<lambda>j. xs ! j) [0..<length xs]))"
    by (simp add: comp_def del: upt.simps)
  also have "\<dots> = cartesian (xs # xss)"
    by (simp add: map_nth del: upt.simps)
  finally show ?case by simp
qed

lemma length_cartesian: "length (cartesian xss) = prod_list (map length xss)"
  by (induction xss) (simp_all add: length_concat comp_def sum_list_triv)

text \<open>
  Claim C2. On \<open>xs = [a,b,c]\<close>, \<open>ys = [1,2,3]\<close>, \<open>zs = [x,y]\<close> the function emits exactly the
  18 tuples \<open>(a,1,x), (a,1,y), (a,2,x), \<dots>, (c,3,y)\<close> of \<^verbatim>\<open>TestCartesian\<close>, in that order.
  In general, for every list of candidate lists, the emitted sequence is the sequence of
  index vectors read back through the lists, there is one tuple per combination, and the
  index vectors appear in strictly increasing lexicographic order, the leftmost list
  varying slowest.
\<close>

theorem cartesian_lexicographic:
  "cartesian [[Str ''a'', Str ''b'', Str ''c''], [Num 1, Num 2, Num 3], [Str ''x'', Str ''y'']] =
     [[Str ''a'', Num 1, Str ''x''], [Str ''a'', Num 1, Str ''y''],
      [Str ''a'', Num 2, Str ''x''], [Str ''a'', Num 2, Str ''y''],
      [Str ''a'', Num 3, Str ''x''], [Str ''a'', Num 3, Str ''y''],
      [Str ''b'', Num 1, Str ''x''], [Str ''b'', Num 1, Str ''y''],
      [Str ''b'', Num 2, Str ''x''], [Str ''b'', Num 2, Str ''y''],
      [Str ''b'', Num 3, Str ''x''], [Str ''b'', Num 3, Str ''y''],
      [Str ''c'', Num 1, Str ''x''], [Str ''c'', Num 1, Str ''y''],
      [Str ''c'', Num 2, Str ''x''], [Str ''c'', Num 2, Str ''y''],
      [Str ''c'', Num 3, Str ''x''], [Str ''c'', Num 3, Str ''y'']]
   \<and> cartesian xss = map (pick xss) (index_tuples xss)
   \<and> length (cartesian xss) = prod_list (map length xss)
   \<and> sorted_wrt lex_less (index_tuples xss)"
proof -
  have "cartesian [[Str ''a'', Str ''b'', Str ''c''], [Num 1, Num 2, Num 3], [Str ''x'', Str ''y'']] =
     [[Str ''a'', Num 1, Str ''x''], [Str ''a'', Num 1, Str ''y''],
      [Str ''a'', Num 2, Str ''x''], [Str ''a'', Num 2, Str ''y''],
      [Str ''a'', Num 3, Str ''x''], [Str ''a'', Num 3, Str ''y''],
      [Str ''b'', Num 1, Str ''x''], [Str ''b'', Num 1, Str ''y''],
      [Str ''b'', Num 2, Str ''x''], [Str ''b'', Num 2, Str ''y''],
      [Str ''b'', Num 3, Str ''x''], [Str ''b'', Num 3, Str ''y''],
      [Str ''c'', Num 1, Str ''x''], [Str ''c'', Num 1, Str ''y''],
      [Str ''c'', Num 2, Str ''x''], [Str ''c'', Num 2, Str ''y''],
      [Str ''c'', Num 3, Str ''x''], [Str ''c'', Num 3, Str ''y'']]"
    by simp
  then show ?thesis
    using cartesian_pick [of xss] length_cartesian [of xss] index_tuples_sorted [of xss]
    by blast
qed

theorem cartesian_lexicographic_witness:
  "cartesian [[Num 1, Num 2], [Num 3, Num 4]] =
     map (pick [[Num 1, Num 2], [Num 3, Num 4]]) [[0, 0], [0, 1], [1, 0], [1, 1]]
   \<and> index_tuples [[Num 1, Num 2], [Num 3, Num 4]] = [[0, 0], [0, 1], [1, 0], [1, 1]]
   \<and> sorted_wrt lex_less [[0, 0], [0, 1], [1, 0], [1, 1]]"
proof -
  have idx: "index_tuples [[Num 1, Num 2], [Num 3, Num 4]] = [[0, 0], [0, 1], [1, 0], [1, 1]]"
    by (simp add: index_tuples_def upt_rec)
  show ?thesis
    using cartesian_lexicographic [of "[[Num 1, Num 2], [Num 3, Num 4]]"] unfolding idx
    by simp
qed

section \<open>Properties of the closures\<close>

text \<open>Projections of an event list, one constructor at a time.\<close>

lemma hook_calls_simps [simp]:
  "hook_calls [] = []"
  "hook_calls (SendStatus s # xs) = hook_calls xs"
  "hook_calls (SendResult r # xs) = hook_calls xs"
  "hook_calls (CallNewTerraformSession b # xs) = hook_calls xs"
  "hook_calls (CallHook p c # xs) = c # hook_calls xs"
  "hook_calls (CallInit b # xs) = hook_calls xs"
  "hook_calls (CallDetach b # xs) = hook_calls xs"
  "hook_calls (CallPlan b # xs) = hook_calls xs"
  "hook_calls (CallApply b # xs) = hook_calls xs"
  "hook_calls (xs @ ys) = hook_calls xs @ hook_calls ys"
  by (simp_all add: hook_calls_def)

lemma statuses_simps [simp]:
  "statuses [] = []"
  "statuses (SendStatus s # xs) = s # statuses xs"
  "statuses (SendResult r # xs) = statuses xs"
  "statuses (CallNewTerraformSession b # xs) = statuses xs"
  "statuses (CallHook p c # xs) = statuses xs"
  "statuses (CallInit b # xs) = statuses xs"
  "statuses (CallDetach b # xs) = statuses xs"
  "statuses (CallPlan b # xs) = statuses xs"
  "statuses (CallApply b # xs) = statuses xs"
  "statuses (xs @ ys) = statuses xs @ statuses ys"
  by (simp_all add: statuses_def)

lemma deliveries_simps [simp]:
  "deliveries [] = []"
  "deliveries (SendStatus s # xs) = deliveries xs"
  "deliveries (SendResult r # xs) = r # deliveries xs"
  "deliveries (CallNewTerraformSession b # xs) = deliveries xs"
  "deliveries (CallHook p c # xs) = deliveries xs"
  "deliveries (CallInit b # xs) = deliveries xs"
  "deliveries (CallDetach b # xs) = deliveries xs"
  "deliveries (CallPlan b # xs) = deliveries xs"
  "deliveries (CallApply b # xs) = deliveries xs"
  "deliveries (xs @ ys) = deliveries xs @ deliveries ys"
  by (simp_all add: deliveries_def)

lemma takeWhile_neq_append:
  "a \<notin> set xs \<Longrightarrow> takeWhile (\<lambda>x. x \<noteq> a) (xs @ ys) = xs @ takeWhile (\<lambda>x. x \<noteq> a) ys"
  by (induction xs) auto




lemma loop_statuses:
  "statuses (fst (preModuleRun_loop w p i hs)) =
     replicate (length (hooks_until_failure w p hs)) (sprintf_status i ''Running PreModuleRun hook'')"
  by (induction hs) (auto split: option.splits)

lemma loop_deliveries:
  "deliveries (fst (preModuleRun_loop w p i hs)) =
     (case snd (preModuleRun_loop w p i hs) of
        None \<Rightarrow> []
      | Some e \<Rightarrow> [\<lparr>id' = i, terraformResult = None, err = Some (''error running PreModuleRun hook: '' @ e)\<rparr>])"
  by (induction hs) (auto split: option.splits)

lemma length_hooks_until_failure: "length (hooks_until_failure w p hs) \<le> length hs"
  by (induction hs) (auto split: option.splits)






section \<open>The closures of the three entry points\<close>

lemma closures_apply: "closures (session_apply w s bes) = map (apply_fn w) bes"
  by (simp add: closures_def session_apply_def)

lemma closures_plan:
  "closures (session_plan sem w s bes d) =
     map (\<lambda>b. plan_fn w (path s) d b (loop_variable sem bes b)) bes"
  by (simp add: closures_def session_plan_def)

lemma closures_applyWithGraph:
  "graph_of bes = Inr g \<Longrightarrow>
   closures (session_applyWithGraph graph_of w s bes) = map (\<lambda>v. fst (walk_fn w (path s) v)) (vertices g)"
  by (simp add: closures_def session_applyWithGraph_def)

section \<open>Invariants of the interleavings\<close>

lemma run_invariant:
  assumes "\<And>a st st'. P st \<Longrightarrow> step l a st = Some st' \<Longrightarrow> P st'"
    and "P st" and "run l sched st = Some st'"
  shows "P st'"
  using assms(2,3)
proof (induction sched arbitrary: st)
  case Nil
  then show ?case by simp
next
  case (Cons a sched)
  then show ?case using assms(1) by (auto split: option.splits)
qed

lemma run_append:
  "run l (xs @ ys) st = (case run l xs st of None \<Rightarrow> None | Some st' \<Rightarrow> run l ys st')"
  by (induction xs arbitrary: st) (auto split: option.splits)

lemma performed_finish [simp]: "performed (finish i rest st) j = performed st j"
  by (simp add: performed_def finish_def)

lemma procs_finish:
  "procs (finish i rest st) = (procs st)[i := (if rest = [] then Finished else Running rest)]"
  by (simp add: finish_def)

lemma performed_snoc:
  "performed (st\<lparr>trace := trace st @ [(i, ev)]\<rparr>) j =
     (if j = i then performed st j @ [ev] else performed st j)"
  by (simp add: performed_def)

lemma perform_cases:
  assumes "perform l i ev rest st = Some st'"
  shows "procs st' = (procs st)[i := (if rest = [] then Finished else Running rest)]
       \<and> trace st' = trace st @ [(i, ev)]"
  using assms
  by (auto simp: perform_def finish_def split: event.splits option.splits if_splits)

lemma consistent_frame:
  assumes "procs st' = procs st" and "trace st' = trace st" and "consistent l st"
  shows "consistent l st'"
proof -
  have "\<And>i. performed st' i = performed st i" using assms(2) by (simp add: performed_def)
  then have "\<And>i. proc_ok l st' i = proc_ok l st i"
    using assms(1) by (simp add: proc_ok_def cong: pstate.case_cong)
  then show ?thesis using assms(1,3) by (simp add: consistent_def)
qed

lemma consistent_init: "consistent l (init l)"
  by (simp add: consistent_def init_def proc_ok_def performed_def)

lemma consistent_step:
  assumes c: "consistent l st" and s: "step l a st = Some st'"
  shows "consistent l st'"
proof (cases a)
  case (Start i)
  with s have i: "i < length (procs st)" "procs st ! i = Pending"
    and st': "st' = finish i (closures l ! i) st"
    by (auto split: if_splits)
  from c i have p: "performed st i = []" by (auto simp: consistent_def proc_ok_def)
  show ?thesis
    unfolding consistent_def
  proof (intro conjI allI impI)
    show "length (procs st') = length (closures l)"
      using c st' by (simp add: consistent_def procs_finish)
    fix j assume "j < length (procs st')"
    then have j: "j < length (procs st)" using st' by (simp add: procs_finish)
    show "proc_ok l st' j"
    proof (cases "j = i")
      case True
      then show ?thesis using p i st' by (simp add: proc_ok_def procs_finish)
    next
      case False
      from c j have "proc_ok l st j" by (simp add: consistent_def)
      with False show ?thesis using st' by (simp add: proc_ok_def procs_finish split: pstate.splits)
    qed
  qed
next
  case (Skip i)
  with s have i: "i < length (procs st)" "procs st ! i = Pending"
    and st': "st' = st\<lparr>procs := (procs st)[i := Skipped]\<rparr>"
    by (auto split: if_splits)
  from c i have p: "performed st i = []" by (auto simp: consistent_def proc_ok_def)
  have perf: "\<And>j. performed st' j = performed st j" using st' by (simp add: performed_def)
  show ?thesis
    unfolding consistent_def
  proof (intro conjI allI impI)
    show "length (procs st') = length (closures l)"
      using c st' by (simp add: consistent_def)
    fix j assume "j < length (procs st')"
    then have j: "j < length (procs st)" using st' by simp
    show "proc_ok l st' j"
    proof (cases "j = i")
      case True
      then show ?thesis using p i st' perf by (simp add: proc_ok_def)
    next
      case False
      from c j have "proc_ok l st j" by (simp add: consistent_def)
      with False show ?thesis using st' perf by (simp add: proc_ok_def split: pstate.splits)
    qed
  qed
next
  case (Step i)
  with s obtain ev rest where i: "i < length (procs st)" and r: "procs st ! i = Running (ev # rest)"
    and pf: "perform l i ev rest st = Some st'"
    by (auto split: if_splits pstate.splits list.splits)
  from perform_cases [OF pf] have pr: "procs st' = (procs st)[i := (if rest = [] then Finished else Running rest)]"
    and tr: "trace st' = trace st @ [(i, ev)]" by auto
  have perf: "\<And>j. performed st' j = (if j = i then performed st j @ [ev] else performed st j)"
    using tr by (simp add: performed_def)
  from c i r have p: "performed st i @ ev # rest = closures l ! i"
    by (auto simp: consistent_def proc_ok_def)
  show ?thesis
    unfolding consistent_def
  proof (intro conjI allI impI)
    show "length (procs st') = length (closures l)"
      using c pr by (simp add: consistent_def)
    fix j assume "j < length (procs st')"
    then have j: "j < length (procs st)" using pr by simp
    show "proc_ok l st' j"
    proof (cases "j = i")
      case True
      from p have "rest = [] \<Longrightarrow> performed st i @ [ev] = closures l ! i" by simp
      moreover from p have "(performed st i @ [ev]) @ rest = closures l ! i" by simp
      ultimately show ?thesis using True i pr perf by (simp add: proc_ok_def)
    next
      case False
      from c j have "proc_ok l st j" by (simp add: consistent_def)
      with False show ?thesis using pr perf by (simp add: proc_ok_def split: pstate.splits)
    qed
  qed
next
  case (Signal sig)
  with s have "procs st' = procs st" "trace st' = trace st" by (auto split: if_splits)
  then show ?thesis using c by (rule consistent_frame)
next
  case Handle
  with s have "procs st' = procs st" "trace st' = trace st" by (auto split: if_splits list.splits)
  then show ?thesis using c by (rule consistent_frame)
next
  case Close
  with s have "procs st' = procs st" "trace st' = trace st" by (auto split: if_splits)
  then show ?thesis using c by (rule consistent_frame)
next
  case RecvStatus
  with s have "procs st' = procs st" "trace st' = trace st" by (auto split: list.splits)
  then show ?thesis using c by (rule consistent_frame)
next
  case RecvResult
  with s have "procs st' = procs st" "trace st' = trace st" by (auto split: list.splits)
  then show ?thesis using c by (rule consistent_frame)
next
  case RangeExit
  with s have "st' = st" by (auto split: if_splits)
  then show ?thesis using c by simp
qed

lemma consistent_run:
  "run l sched (init l) = Some st \<Longrightarrow> consistent l st"
  by (rule run_invariant [where P = "consistent l" and l = l and st = "init l" and sched = sched])
     (auto intro: consistent_step consistent_init)

lemma performed_prefix:
  assumes "run l sched (init l) = Some st" and "i < length (closures l)"
  shows "prefix (performed st i) (closures l ! i)"
    and "procs st ! i = Finished \<Longrightarrow> performed st i = closures l ! i"
proof -
  from consistent_run [OF assms(1)] assms(2) have ok: "proc_ok l st i"
    by (simp add: consistent_def)
  show "prefix (performed st i) (closures l ! i)"
    using ok by (cases "procs st ! i") (auto simp: proc_ok_def intro: prefixI [OF sym])
  show "procs st ! i = Finished \<Longrightarrow> performed st i = closures l ! i"
    using ok by (simp add: proc_ok_def)
qed

section \<open>Pre-module hooks on the three paths\<close>


lemma statuses_prefix: "prefix xs ys \<Longrightarrow> prefix (statuses xs) (statuses ys)"
  by (auto simp: prefix_def)





section \<open>Order and form of the status lines\<close>

lemma sprintf_status_inj [simp]: "sprintf_status i p = sprintf_status i q \<longleftrightarrow> p = q"
  by (simp add: sprintf_status_def)

lemma emitted_before_prefix:
  assumes "prefix xs c" and "emitted_before a b c"
  shows "emitted_before a b xs"
proof -
  from assms(1) obtain zs where c: "c = xs @ zs" by (auto simp: prefix_def)
  show ?thesis
    using assms(2) unfolding emitted_before_def c
    by (auto simp: takeWhile_append1)
qed

lemma plan_fn_statuses:
  "prefix (statuses (plan_fn w p d b e))
     (plan_lines (ID b) (length (hooks_until_failure w p (PreModuleRun (Hooks (ModuleConfig e))))) d)"
proof (cases "newTerraformSession w b")
  case (Some x)
  then show ?thesis by (simp add: plan_fn_def)
next
  case None
  let ?hs = "PreModuleRun (Hooks (ModuleConfig e))"
  show ?thesis
  proof (cases "snd (preModuleRun_loop w p (ID b) ?hs)")
    case (Some x)
    with None show ?thesis by (simp add: plan_fn_def loop_statuses plan_lines_def)
  next
    case N2: None
    with None show ?thesis
      by (cases "Init w b"; cases "Detach w b")
         (auto simp: plan_fn_def loop_statuses plan_lines_def split: option.splits)
  qed
qed

lemma apply_fn_statuses: "prefix (statuses (apply_fn w b)) (apply_lines (ID b) 0)"
  by (cases "Init w b") (auto simp: apply_fn_def apply_lines_def split: option.splits)

lemma walk_fn_statuses:
  "prefix (statuses (fst (walk_fn w p (Exec b))))
     (apply_lines (ID b) (length (hooks_until_failure w p (PreModuleRun (Hooks (ModuleConfig b))))))"
  by (cases "Init w b")
     (auto simp: walk_fn_def loop_statuses apply_lines_def split: option.splits)

lemma plan_lines_order:
  "emitted_before (sprintf_status i ''Initializing'') (sprintf_status i ''Planning'') (plan_lines i k d)"
  "emitted_before (sprintf_status i ''Initializing'') (sprintf_status i ''Disconnecting remote state'') (plan_lines i k d)"
  "d \<Longrightarrow> emitted_before (sprintf_status i ''Disconnecting remote state'') (sprintf_status i ''Planning'') (plan_lines i k d)"
  "\<not> d \<Longrightarrow> sprintf_status i ''Disconnecting remote state'' \<notin> set (plan_lines i k d)"
  by (auto simp: emitted_before_def plan_lines_def takeWhile_neq_append)

lemma apply_lines_order:
  "emitted_before (sprintf_status i ''Initializing'') (sprintf_status i ''Applying'') (apply_lines i k)"
  by (auto simp: emitted_before_def apply_lines_def takeWhile_neq_append)

lemma plan_lines_format:
  "line \<in> set (plan_lines i k d) \<Longrightarrow> \<exists>phase. phase \<in> set phases \<and> line = sprintf_status i phase"
  by (auto simp: plan_lines_def phases_def split: if_splits)

lemma apply_lines_format:
  "line \<in> set (apply_lines i k) \<Longrightarrow> \<exists>phase. phase \<in> set phases \<and> line = sprintf_status i phase"
  by (auto simp: apply_lines_def phases_def)

lemma fifo_step:
  assumes "status_read st @ status_q st = statuses (map snd (trace st))"
    and "step l a st = Some st'"
  shows "status_read st' @ status_q st' = statuses (map snd (trace st'))"
proof (cases a)
  case (Step i)
  with assms(2) obtain ev rest where pf: "perform l i ev rest st = Some st'"
    by (auto split: if_splits pstate.splits list.splits)
  then show ?thesis using assms(1)
    by (cases ev) (auto simp: perform_def finish_def split: option.splits if_splits)
qed (use assms in \<open>auto simp: finish_def split: if_splits list.splits\<close>)

lemma fifo_run:
  "run l sched (init l) = Some st \<Longrightarrow> status_read st @ status_q st = statuses (map snd (trace st))"
  by (rule run_invariant [where P = "\<lambda>st. status_read st @ status_q st = statuses (map snd (trace st))"
        and l = l and st = "init l" and sched = sched])
     (auto intro: fifo_step simp: init_def)

lemma lines_facts:
  assumes "prefix xs (plan_lines i k d)"
  shows "emitted_before (sprintf_status i ''Initializing'') (sprintf_status i ''Disconnecting remote state'') xs"
    and "emitted_before (sprintf_status i ''Initializing'') (sprintf_status i ''Planning'') xs"
    and "d \<longrightarrow> emitted_before (sprintf_status i ''Disconnecting remote state'') (sprintf_status i ''Planning'') xs"
    and "\<not> d \<longrightarrow> sprintf_status i ''Disconnecting remote state'' \<notin> set xs"
    and "\<forall>line. line \<in> set xs \<longrightarrow> (\<exists>phase. phase \<in> set phases \<and> line = sprintf_status i phase)"
proof -
  from assms have sub: "set xs \<subseteq> set (plan_lines i k d)" by (auto simp: prefix_def)
  show "emitted_before (sprintf_status i ''Initializing'') (sprintf_status i ''Disconnecting remote state'') xs"
    using emitted_before_prefix [OF assms plan_lines_order(2)] .
  show "emitted_before (sprintf_status i ''Initializing'') (sprintf_status i ''Planning'') xs"
    using emitted_before_prefix [OF assms plan_lines_order(1)] .
  show "d \<longrightarrow> emitted_before (sprintf_status i ''Disconnecting remote state'') (sprintf_status i ''Planning'') xs"
    using emitted_before_prefix [OF assms plan_lines_order(3)] by blast
  show "\<not> d \<longrightarrow> sprintf_status i ''Disconnecting remote state'' \<notin> set xs"
    using sub plan_lines_order(4) [of d i k] by blast
  show "\<forall>line. line \<in> set xs \<longrightarrow> (\<exists>phase. phase \<in> set phases \<and> line = sprintf_status i phase)"
    using sub plan_lines_format [of _ i k d] by blast
qed

lemma apply_lines_facts:
  assumes "prefix xs (apply_lines i k)"
  shows "emitted_before (sprintf_status i ''Initializing'') (sprintf_status i ''Applying'') xs"
    and "\<forall>line. line \<in> set xs \<longrightarrow> (\<exists>phase. phase \<in> set phases \<and> line = sprintf_status i phase)"
proof -
  from assms have sub: "set xs \<subseteq> set (apply_lines i k)" by (auto simp: prefix_def)
  show "emitted_before (sprintf_status i ''Initializing'') (sprintf_status i ''Applying'') xs"
    using emitted_before_prefix [OF assms apply_lines_order] .
  show "\<forall>line. line \<in> set xs \<longrightarrow> (\<exists>phase. phase \<in> set phases \<and> line = sprintf_status i phase)"
    using sub apply_lines_format [of _ i k] by blast
qed

lemma plan_performed_lines:
  assumes r: "run (session_plan sem w s bes d) sched (init (session_plan sem w s bes d)) = Some st"
    and i: "i < length bes"
  shows "\<exists>k. prefix (statuses (performed st i)) (plan_lines (ID (bes ! i)) k d)"
proof -
  have "prefix (performed st i) (plan_fn w (path s) d (bes ! i) (loop_variable sem bes (bes ! i)))"
    using performed_prefix(1) [OF r, of i] i by (simp add: closures_plan)
  from statuses_prefix [OF this] plan_fn_statuses show ?thesis
    by (meson prefix_order.trans)
qed

lemma apply_performed_lines:
  assumes r: "run (session_apply w s bes) sched (init (session_apply w s bes)) = Some st"
    and i: "i < length bes"
  shows "prefix (statuses (performed st i)) (apply_lines (ID (bes ! i)) 0)"
proof -
  have "prefix (performed st i) (apply_fn w (bes ! i))"
    using performed_prefix(1) [OF r, of i] i by (simp add: closures_apply)
  from statuses_prefix [OF this] apply_fn_statuses show ?thesis
    by (meson prefix_order.trans)
qed

lemma walk_performed_lines:
  assumes g: "graph_of bes = Inr g"
    and r: "run (session_applyWithGraph graph_of w s bes) sched
              (init (session_applyWithGraph graph_of w s bes)) = Some st"
    and i: "i < length (vertices g)" and v: "vertices g ! i = Exec b"
  shows "\<exists>k. prefix (statuses (performed st i)) (apply_lines (ID b) k)"
proof -
  have cl: "closures (session_applyWithGraph graph_of w s bes) =
      map (\<lambda>v. fst (walk_fn w (path s) v)) (vertices g)"
    using g by (rule closures_applyWithGraph)
  have "prefix (performed st i) (fst (walk_fn w (path s) (Exec b)))"
    using performed_prefix(1) [OF r, of i] i v by (simp add: cl)
  from statuses_prefix [OF this] walk_fn_statuses show ?thesis
    by (meson prefix_order.trans)
qed

text \<open>
  Claim C8. In every interleaving, the status lines that one execution has sent are an
  initial part of: one \<^verbatim>\<open>Running PreModuleRun hook\<close> line per announced hook,
  \<^verbatim>\<open>Initializing\<close>, then on the plan path \<^verbatim>\<open>Disconnecting remote state\<close> (only when detach
  is requested) and \<^verbatim>\<open>Planning\<close>, on the apply paths \<^verbatim>\<open>Applying\<close>. Hence
  \<^verbatim>\<open>Initializing\<close> comes before \<^verbatim>\<open>Disconnecting remote state\<close>, which comes before
  \<^verbatim>\<open>Planning\<close>; without detach there is no \<^verbatim>\<open>Disconnecting remote state\<close> line; on the
  apply paths \<^verbatim>\<open>Initializing\<close> comes before \<^verbatim>\<open>Applying\<close>; every line is
  \<^verbatim>\<open>[<id>] <phase>...\<close> with the execution's id and one of the five phases. The status
  channel hands the lines to its reader in the order they were sent.
\<close>

theorem status_phase_order:
  "(\<forall>sched st i.
      run (session_plan sem w s bes d) sched (init (session_plan sem w s bes d)) = Some st
      \<and> i < length bes \<longrightarrow>
        (\<exists>k. prefix (statuses (performed st i)) (plan_lines (ID (bes ! i)) k d))
        \<and> emitted_before (sprintf_status (ID (bes ! i)) ''Initializing'')
            (sprintf_status (ID (bes ! i)) ''Disconnecting remote state'') (statuses (performed st i))
        \<and> emitted_before (sprintf_status (ID (bes ! i)) ''Initializing'')
            (sprintf_status (ID (bes ! i)) ''Planning'') (statuses (performed st i))
        \<and> (d \<longrightarrow> emitted_before (sprintf_status (ID (bes ! i)) ''Disconnecting remote state'')
            (sprintf_status (ID (bes ! i)) ''Planning'') (statuses (performed st i)))
        \<and> (\<not> d \<longrightarrow> sprintf_status (ID (bes ! i)) ''Disconnecting remote state''
            \<notin> set (statuses (performed st i)))
        \<and> (\<forall>line. line \<in> set (statuses (performed st i)) \<longrightarrow>
             (\<exists>phase. phase \<in> set phases \<and> line = sprintf_status (ID (bes ! i)) phase)))
   \<and> (\<forall>sched st i.
      run (session_apply w s bes) sched (init (session_apply w s bes)) = Some st
      \<and> i < length bes \<longrightarrow>
        prefix (statuses (performed st i)) (apply_lines (ID (bes ! i)) 0)
        \<and> emitted_before (sprintf_status (ID (bes ! i)) ''Initializing'')
            (sprintf_status (ID (bes ! i)) ''Applying'') (statuses (performed st i))
        \<and> (\<forall>line. line \<in> set (statuses (performed st i)) \<longrightarrow>
             (\<exists>phase. phase \<in> set phases \<and> line = sprintf_status (ID (bes ! i)) phase)))
   \<and> (\<forall>g sched st i b.
      graph_of bes = Inr g
      \<and> run (session_applyWithGraph graph_of w s bes) sched
           (init (session_applyWithGraph graph_of w s bes)) = Some st
      \<and> i < length (vertices g) \<and> vertices g ! i = Exec b \<longrightarrow>
        (\<exists>k. prefix (statuses (performed st i)) (apply_lines (ID b) k))
        \<and> emitted_before (sprintf_status (ID b) ''Initializing'')
            (sprintf_status (ID b) ''Applying'') (statuses (performed st i))
        \<and> (\<forall>line. line \<in> set (statuses (performed st i)) \<longrightarrow>
             (\<exists>phase. phase \<in> set phases \<and> line = sprintf_status (ID b) phase)))
   \<and> (\<forall>l sched st. run l sched (init l) = Some st \<longrightarrow>
        status_read st @ status_q st = statuses (map snd (trace st)))"
proof (intro conjI allI impI; (elim conjE)?)
  fix sched st i
  assume r: "run (session_plan sem w s bes d) sched (init (session_plan sem w s bes d)) = Some st"
    and i: "i < length bes"
  from plan_performed_lines [OF r i] obtain k
    where k: "prefix (statuses (performed st i)) (plan_lines (ID (bes ! i)) k d)" by blast
  show "\<exists>k. prefix (statuses (performed st i)) (plan_lines (ID (bes ! i)) k d)"
    using k by blast
  show "emitted_before (sprintf_status (ID (bes ! i)) ''Initializing'')
            (sprintf_status (ID (bes ! i)) ''Disconnecting remote state'') (statuses (performed st i))"
    using lines_facts(1) [OF k] .
  show "emitted_before (sprintf_status (ID (bes ! i)) ''Initializing'')
            (sprintf_status (ID (bes ! i)) ''Planning'') (statuses (performed st i))"
    using lines_facts(2) [OF k] .
  show "emitted_before (sprintf_status (ID (bes ! i)) ''Disconnecting remote state'')
            (sprintf_status (ID (bes ! i)) ''Planning'') (statuses (performed st i))" if d
    using lines_facts(3) [OF k] that by blast
  show "sprintf_status (ID (bes ! i)) ''Disconnecting remote state''
            \<notin> set (statuses (performed st i))" if "\<not> d"
    using lines_facts(4) [OF k] that by blast
  show "\<exists>phase. phase \<in> set phases \<and> line = sprintf_status (ID (bes ! i)) phase"
    if "line \<in> set (statuses (performed st i))" for line
    using lines_facts(5) [OF k] that by blast
next
  fix sched st i
  assume r: "run (session_apply w s bes) sched (init (session_apply w s bes)) = Some st"
    and i: "i < length bes"
  note k = apply_performed_lines [OF r i]
  show "prefix (statuses (performed st i)) (apply_lines (ID (bes ! i)) 0)" by (rule k)
  show "emitted_before (sprintf_status (ID (bes ! i)) ''Initializing'')
            (sprintf_status (ID (bes ! i)) ''Applying'') (statuses (performed st i))"
    using apply_lines_facts(1) [OF k] .
  show "\<exists>phase. phase \<in> set phases \<and> line = sprintf_status (ID (bes ! i)) phase"
    if "line \<in> set (statuses (performed st i))" for line
    using apply_lines_facts(2) [OF k] that by blast
next
  fix g sched st i b
  assume g: "graph_of bes = Inr g"
    and r: "run (session_applyWithGraph graph_of w s bes) sched
           (init (session_applyWithGraph graph_of w s bes)) = Some st"
    and i: "i < length (vertices g)" and v: "vertices g ! i = Exec b"
  from walk_performed_lines [OF g r i v] obtain k
    where k: "prefix (statuses (performed st i)) (apply_lines (ID b) k)" by blast
  show "\<exists>k. prefix (statuses (performed st i)) (apply_lines (ID b) k)" using k by blast
  show "emitted_before (sprintf_status (ID b) ''Initializing'')
            (sprintf_status (ID b) ''Applying'') (statuses (performed st i))"
    using apply_lines_facts(1) [OF k] .
  show "\<exists>phase. phase \<in> set phases \<and> line = sprintf_status (ID b) phase"
    if "line \<in> set (statuses (performed st i))" for line
    using apply_lines_facts(2) [OF k] that by blast
next
  fix l sched st
  assume "run l sched (init l) = Some st"
  then show "status_read st @ status_q st = statuses (map snd (trace st))" by (rule fifo_run)
qed

theorem status_phase_order_witness:
  "\<exists>st. run (session_plan PerIteration all_succeed session0 [hooked ''foo'' [''true'']] True)
          (Start 0 # replicate 10 (Step 0))
          (init (session_plan PerIteration all_succeed session0 [hooked ''foo'' [''true'']] True)) = Some st
     \<and> status_q st = [''[foo] Running PreModuleRun hook...'', ''[foo] Initializing...'',
                       ''[foo] Disconnecting remote state...'', ''[foo] Planning...'']
     \<and> statuses (performed st 0) = status_q st
     \<and> emitted_before ''[foo] Initializing...'' ''[foo] Disconnecting remote state...'' (statuses (performed st 0))
     \<and> emitted_before ''[foo] Disconnecting remote state...'' ''[foo] Planning...'' (statuses (performed st 0))"
proof -
  let ?l = "session_plan PerIteration all_succeed session0 [hooked ''foo'' [''true'']] True"
  have e: "map_option (\<lambda>st. (status_q st, statuses (performed st 0)))
      (run ?l (Start 0 # replicate 10 (Step 0)) (init ?l)) =
      Some ([''[foo] Running PreModuleRun hook...'', ''[foo] Initializing...'',
             ''[foo] Disconnecting remote state...'', ''[foo] Planning...''],
            [''[foo] Running PreModuleRun hook...'', ''[foo] Initializing...'',
             ''[foo] Disconnecting remote state...'', ''[foo] Planning...''])"
    by code_simp
  then obtain st where st: "run ?l (Start 0 # replicate 10 (Step 0)) (init ?l) = Some st"
    and q: "status_q st = [''[foo] Running PreModuleRun hook...'', ''[foo] Initializing...'',
                       ''[foo] Disconnecting remote state...'', ''[foo] Planning...'']"
    and p: "statuses (performed st 0) = status_q st" by auto
  have l: "0 < length [hooked ''foo'' [''true'']]" by simp
  note t = status_phase_order [of PerIteration all_succeed session0 "[hooked ''foo'' [''true'']]" True,
      THEN conjunct1, rule_format, OF conjI [OF st l]]
  have i: "ID ([hooked ''foo'' [''true'']] ! 0) = ''foo''" by (simp add: hooked_def)
  have a: "emitted_before ''[foo] Initializing...'' ''[foo] Disconnecting remote state...'' (statuses (performed st 0))"
    using t [THEN conjunct2, THEN conjunct1] unfolding i by (simp add: sprintf_status_def)
  have b: "emitted_before ''[foo] Disconnecting remote state...'' ''[foo] Planning...'' (statuses (performed st 0))"
    using t [THEN conjunct2, THEN conjunct2, THEN conjunct2, THEN conjunct1] unfolding i
    by (simp add: sprintf_status_def)
  show ?thesis using st q p a b by blast
qed

section \<open>Failure of the graph construction\<close>

lemma nothing_runs_step:
  assumes "runner l = None"
    and "procs st = [] \<and> trace st = [] \<and> status_q st = [] \<and> results_q st = [] \<and> \<not> results_closed st"
    and "step l a st = Some st'"
  shows "procs st' = [] \<and> trace st' = [] \<and> status_q st' = [] \<and> results_q st' = [] \<and> \<not> results_closed st'"
  using assms
  by (cases a) (auto simp: runner_returned_def split: if_splits list.splits)

lemma nothing_runs:
  assumes "runner l = None" and "run l sched (init l) = Some st"
  shows "procs st = [] \<and> trace st = [] \<and> status_q st = [] \<and> results_q st = [] \<and> \<not> results_closed st"
proof (rule run_invariant [where P = "\<lambda>st. procs st = [] \<and> trace st = [] \<and> status_q st = []
      \<and> results_q st = [] \<and> \<not> results_closed st" and l = l and st = "init l" and sched = sched])
  show "procs (init l) = [] \<and> trace (init l) = [] \<and> status_q (init l) = [] \<and>
    results_q (init l) = [] \<and> \<not> results_closed (init l)"
    using assms(1) by (simp add: init_def closures_def)
  show "run l sched (init l) = Some st" by fact
qed (rule nothing_runs_step [OF assms(1)])

text \<open>
  Claim C6. When the construction of the dependency graph fails, \<^verbatim>\<open>applyWithGraph\<close> returns
  that error together with a \<^verbatim>\<open>nil\<close> status channel and a \<^verbatim>\<open>nil\<close> result channel, and
  it starts no goroutine: there is no closure, and whatever happens afterwards nothing
  is performed, nothing is sent and nothing is closed.
\<close>

theorem applyWithGraph_graph_error:
  "graph_of bes = Inl e \<Longrightarrow>
   statusCh (session_applyWithGraph graph_of w s bes) = None
   \<and> resultsCh (session_applyWithGraph graph_of w s bes) = None
   \<and> ret_err (session_applyWithGraph graph_of w s bes) = Some e
   \<and> runner (session_applyWithGraph graph_of w s bes) = None
   \<and> closures (session_applyWithGraph graph_of w s bes) = []
   \<and> (\<forall>sched st. run (session_applyWithGraph graph_of w s bes) sched
          (init (session_applyWithGraph graph_of w s bes)) = Some st \<longrightarrow>
        procs st = [] \<and> trace st = [] \<and> status_q st = [] \<and> results_q st = []
        \<and> \<not> results_closed st)"
proof -
  assume g: "graph_of bes = Inl e"
  let ?l = "session_applyWithGraph graph_of w s bes"
  have r: "runner ?l = None" using g by (simp add: session_applyWithGraph_def)
  show ?thesis
    using g r nothing_runs [OF r]
    by (auto simp: session_applyWithGraph_def closures_def)
qed

theorem applyWithGraph_graph_error_witness:
  "cyclic [hooked ''foo'' []] = Inl ''cycle in dependency graph''
   \<and> statusCh (session_applyWithGraph cyclic all_succeed session0 [hooked ''foo'' []]) = None
   \<and> resultsCh (session_applyWithGraph cyclic all_succeed session0 [hooked ''foo'' []]) = None
   \<and> ret_err (session_applyWithGraph cyclic all_succeed session0 [hooked ''foo'' []])
       = Some ''cycle in dependency graph''
   \<and> run (session_applyWithGraph cyclic all_succeed session0 [hooked ''foo'' []]) [Start 0]
       (init (session_applyWithGraph cyclic all_succeed session0 [hooked ''foo'' []])) = None
   \<and> (\<exists>st. run (session_applyWithGraph cyclic all_succeed session0 [hooked ''foo'' []]) [Signal SIGINT]
       (init (session_applyWithGraph cyclic all_succeed session0 [hooked ''foo'' []])) = Some st
       \<and> trace st = [])"
proof -
  have c: "cyclic [hooked ''foo'' []] = Inl ''cycle in dependency graph''"
    by (simp add: cyclic_def)
  let ?l = "session_applyWithGraph cyclic all_succeed session0 [hooked ''foo'' []]"
  have n: "run ?l [Start 0] (init ?l) = None" by code_simp
  have "run ?l [Signal SIGINT] (init ?l) \<noteq> None" by code_simp
  then obtain st where st: "run ?l [Signal SIGINT] (init ?l) = Some st" by blast
  note t = applyWithGraph_graph_error [of cyclic "[hooked ''foo'' []]" "''cycle in dependency graph''"
      all_succeed session0, OF c]
  from t st have "trace st = []" by blast
  with t c n st show ?thesis by blast
qed

end
